theory Spec2Isabelle
  imports Complex_Main "HOL-Library.Sublist" "HOL-Library.FSet" "HOL-Library.AList"
begin

section \<open>Edit distance (address\_book.py, lines 472--517)\<close>

text \<open>
  Strings are lists of characters; the distance functions only compare characters for
  equality, so they are modelled for any character type. Lengths, indices and matrix
  entries are natural numbers: the source only ever adds to them, and the one
  subtraction, \<^verbatim>\<open>s1[i - 1]\<close>, happens inside \<^verbatim>\<open>range(1, len_s1 + 1)\<close>.
\<close>

subsection \<open>The matrix of \<^verbatim>\<open>weighted_levenshtein_distance\<close>\<close>

text \<open>\<^verbatim>\<open>matrix = [[0] * (len_s2 + 1) for _ in range(len_s1 + 1)]\<close>\<close>

definition zero_matrix :: "nat \<Rightarrow> nat \<Rightarrow> nat list list" where
  "zero_matrix len_s1 len_s2 = replicate (len_s1 + 1) (replicate (len_s2 + 1) 0)"

text \<open>\<^verbatim>\<open>matrix[i][j] = v\<close>\<close>

definition set_cell :: "nat \<Rightarrow> nat \<Rightarrow> nat \<Rightarrow> nat list list \<Rightarrow> nat list list" where
  "set_cell i j v matrix = matrix[i := (matrix ! i)[j := v]]"

text \<open>\<^verbatim>\<open>for i in range(len_s1 + 1): matrix[i][0] = i\<close>\<close>

definition init_column :: "nat \<Rightarrow> nat list list \<Rightarrow> nat list list" where
  "init_column len_s1 matrix = fold (\<lambda>i. set_cell i 0 i) [0..<len_s1 + 1] matrix"

text \<open>\<^verbatim>\<open>for j in range(len_s2 + 1): matrix[0][j] = j\<close>\<close>

definition init_row :: "nat \<Rightarrow> nat list list \<Rightarrow> nat list list" where
  "init_row len_s2 matrix = fold (\<lambda>j. set_cell 0 j j) [0..<len_s2 + 1] matrix"

text \<open>
  The body of the double loop:
  \<^verbatim>\<open>cost = 0 if s1[i - 1] == s2[j - 1] else 1\<close>,
  \<^verbatim>\<open>matrix[i][j] = min(matrix[i - 1][j] + 1, matrix[i][j - 1] + 1, matrix[i - 1][j - 1] + cost)\<close>.
\<close>

definition fill_cell :: "'a list \<Rightarrow> 'a list \<Rightarrow> nat \<Rightarrow> nat \<Rightarrow> nat list list \<Rightarrow> nat list list" where
  "fill_cell s1 s2 i j matrix =
     (let cost = (if s1 ! (i - 1) = s2 ! (j - 1) then 0 else 1)
      in set_cell i j
           (min (min (matrix ! (i - 1) ! j + 1) (matrix ! i ! (j - 1) + 1))
                (matrix ! (i - 1) ! (j - 1) + cost))
           matrix)"

text \<open>\<^verbatim>\<open>for j in range(1, len_s2 + 1): ...\<close>\<close>

definition fill_row :: "'a list \<Rightarrow> 'a list \<Rightarrow> nat \<Rightarrow> nat list list \<Rightarrow> nat list list" where
  "fill_row s1 s2 i matrix = fold (fill_cell s1 s2 i) [1..<length s2 + 1] matrix"

text \<open>\<^verbatim>\<open>for i in range(1, len_s1 + 1): for j in ...\<close>\<close>

definition fill_matrix :: "'a list \<Rightarrow> 'a list \<Rightarrow> nat list list \<Rightarrow> nat list list" where
  "fill_matrix s1 s2 matrix = fold (fill_row s1 s2) [1..<length s1 + 1] matrix"

text \<open>Lines 481--493: the matrix as it stands when the last statement reads it.\<close>

definition levenshtein_matrix :: "'a list \<Rightarrow> 'a list \<Rightarrow> nat list list" where
  "levenshtein_matrix s1 s2 =
     fill_matrix s1 s2
       (init_row (length s2) (init_column (length s1) (zero_matrix (length s1) (length s2))))"

text \<open>The entry \<^verbatim>\<open>matrix[len_s1][len_s2]\<close>, before it is divided.\<close>

definition matrix_distance :: "'a list \<Rightarrow> 'a list \<Rightarrow> nat" where
  "matrix_distance s1 s2 = levenshtein_matrix s1 s2 ! length s1 ! length s2"

text \<open>
  \<^verbatim>\<open>weighted_levenshtein_distance\<close>. The two early returns hand back a length, an
  integer; the last statement divides with \<^verbatim>\<open>/\<close>, Python's true division. The quotient
  is modelled as the exact real number. Both operands are lengths and the divisor is at
  least 1 there; equal quotients round to the same double, and for strings of fewer than
  \<open>2 ^ 26\<close> characters two different quotients are more than a double's spacing apart, so
  the doubles compare as the real numbers do.
\<close>

definition weighted_levenshtein_distance :: "'a list \<Rightarrow> 'a list \<Rightarrow> real" where
  "weighted_levenshtein_distance s1 s2 =
     (let len_s1 = length s1; len_s2 = length s2
      in if len_s1 = 0 then real len_s2
         else if len_s2 = 0 then real len_s1
         else real (matrix_distance s1 s2) / real (max len_s1 len_s2))"

subsection \<open>The two-row \<^verbatim>\<open>levenshtein_distance\<close>\<close>

text \<open>
  The body of the inner loop over \<^verbatim>\<open>enumerate(s2)\<close>: \<^verbatim>\<open>c1 != c2\<close> is a
  boolean, added as 0 or 1.
\<close>

definition append_cell :: "nat list \<Rightarrow> 'a \<Rightarrow> nat \<times> 'a \<Rightarrow> nat list \<Rightarrow> nat list" where
  "append_cell previous_row c1 jc current_row =
     (let j = fst jc; c2 = snd jc;
          insertions = previous_row ! (j + 1) + 1;
          deletions = current_row ! j + 1;
          substitutions = previous_row ! j + (if c1 \<noteq> c2 then 1 else 0)
      in current_row @ [min (min insertions deletions) substitutions])"

text \<open>One round of the outer loop over \<^verbatim>\<open>enumerate(s1)\<close>: it yields the new \<^verbatim>\<open>previous_row\<close>.\<close>

definition next_row :: "'a list \<Rightarrow> nat \<times> 'a \<Rightarrow> nat list \<Rightarrow> nat list" where
  "next_row s2 ic previous_row =
     fold (append_cell previous_row (snd ic)) (enumerate 0 s2) [fst ic + 1]"

definition final_row :: "'a list \<Rightarrow> 'a list \<Rightarrow> nat list" where
  "final_row s1 s2 = fold (next_row s2) (enumerate 0 s1) [0..<length s2 + 1]"

text \<open>
  The function calls itself with the arguments exchanged when the first is the shorter
  one; after the exchange the test fails, so the recursion is at most one call deep.
  \<^verbatim>\<open>previous_row[-1]\<close> is the last element; the row is never empty
  (\<open>length_final_row\<close> below).
\<close>

function levenshtein_distance :: "'a list \<Rightarrow> 'a list \<Rightarrow> nat" where
  "levenshtein_distance s1 s2 =
     (if length s1 < length s2 then levenshtein_distance s2 s1
      else if length s2 = 0 then length s1
      else last (final_row s1 s2))"
  by pat_completeness auto
termination
  by (relation "measure (\<lambda>(s1, s2). if length s1 < length s2 then 1 else 0)") auto

declare levenshtein_distance.simps [simp del]

text \<open>
  The recurrence both loops follow, on prefix lengths: \<open>lev_cell s1 s2 i j\<close> is the cell
  in row \<open>i\<close> and column \<open>j\<close>. It is used in the proofs only.
\<close>

fun lev_cell :: "'a list \<Rightarrow> 'a list \<Rightarrow> nat \<Rightarrow> nat \<Rightarrow> nat" where
  "lev_cell s1 s2 0 j = j"
| "lev_cell s1 s2 (Suc i) 0 = Suc i"
| "lev_cell s1 s2 (Suc i) (Suc j) =
     min (min (lev_cell s1 s2 i (Suc j) + 1) (lev_cell s1 s2 (Suc i) j + 1))
         (lev_cell s1 s2 i j + (if s1 ! i = s2 ! j then 0 else 1))"

text \<open>
  What the proofs say about a matrix under construction: \<open>shaped\<close> is its size,
  \<open>filled s1 s2 i k\<close> says that the rows above \<open>i\<close> and the first \<open>k\<close> cells of row
  \<open>i\<close> already hold their final values.
\<close>

definition shaped :: "nat \<Rightarrow> nat \<Rightarrow> nat list list \<Rightarrow> bool" where
  "shaped m n matrix = (length matrix = m + 1 \<and> (\<forall>i\<le>m. length (matrix ! i) = n + 1))"

definition filled :: "'a list \<Rightarrow> 'a list \<Rightarrow> nat \<Rightarrow> nat \<Rightarrow> nat list list \<Rightarrow> bool" where
  "filled s1 s2 i k matrix =
     (shaped (length s1) (length s2) matrix
      \<and> (\<forall>i'\<le>length s1. matrix ! i' ! 0 = i')
      \<and> (\<forall>i'<i. \<forall>j\<le>length s2. matrix ! i' ! j = lev_cell s1 s2 i' j)
      \<and> (\<forall>j<k. i \<le> length s1 \<longrightarrow> matrix ! i ! j = lev_cell s1 s2 i j))"

section \<open>Records and the address book (lines 69--184)\<close>

text \<open>
  \<^verbatim>\<open>class Record\<close>. A field object (\<^verbatim>\<open>Name\<close>, \<^verbatim>\<open>Phone\<close>, \<^verbatim>\<open>Email\<close>, ...) is
  modelled by its \<^verbatim>\<open>value\<close>, a string; \<^verbatim>\<open>id\<close> is \<^verbatim>\<open>None\<close> until the address book
  assigns it.
\<close>

record py_record =
  record_id :: "int option"
  name :: string
  phones :: "string list"
  emails :: "string list"
  birthday :: "string option"
  address :: "string option"

text \<open>
  \<^verbatim>\<open>class AddressBook(UserDict)\<close>. \<^verbatim>\<open>self.data\<close> is a Python dictionary, which keeps
  its keys in insertion order: an association list, where \<^verbatim>\<open>data[k] = v\<close> is
  \<^const>\<open>AList.update\<close> (in place when the key is there, at the end otherwise),
  \<^verbatim>\<open>del data[k]\<close> is \<^const>\<open>AList.delete\<close> and \<^verbatim>\<open>data.values()\<close> is \<open>map snd\<close>.
  \<^verbatim>\<open>free_ids\<close> is a Python set of integers, always finite.

  The dictionary holds references to \<^verbatim>\<open>Record\<close> objects. The type \<open>'r\<close> is what an
  entry holds: a reference (\<open>ref address_book\<close>, with the objects beside it in a
  \<open>memory\<close>), or the record that the reference leads to (\<open>py_record address_book\<close>),
  which is what the searches read.
\<close>

record 'r address_book =
  data :: "(int \<times> 'r) list"
  next_id :: int
  free_ids :: "int fset"

text \<open>\<^verbatim>\<open>AddressBook.__init__\<close>\<close>

definition init_book :: "'r address_book" where
  "init_book = \<lparr>data = [], next_id = 1, free_ids = {||}\<rparr>"

text \<open>The keys of \<^verbatim>\<open>self.data\<close>: \<^verbatim>\<open>k in self.data\<close> is \<open>k \<in> keys book\<close>.\<close>

definition keys :: "'r address_book \<Rightarrow> int set" where
  "keys book = fst ` set (data book)"

text \<open>
  \<^verbatim>\<open>while self.next_id in self.data or self.next_id in self.free_ids: self.next_id += 1\<close>.
  The loop ends because the dictionary and the set are finite.
\<close>

function skip_used_ids :: "'r address_book \<Rightarrow> 'r address_book" where
  "skip_used_ids book =
     (if next_id book \<in> keys book \<or> next_id book |\<in>| free_ids book
      then skip_used_ids (book\<lparr>next_id := next_id book + 1\<rparr>)
      else book)"
  by pat_completeness auto
termination
proof (relation "measure (\<lambda>book. card {k \<in> keys book \<union> fset (free_ids book). next_id book \<le> k})")
  show "wf (measure (\<lambda>book. card {k \<in> keys book \<union> fset (free_ids book). next_id book \<le> k}))"
    by simp
next
  fix book :: "'r address_book"
  assume used: "next_id book \<in> keys book \<or> next_id book |\<in>| free_ids book"
  let ?U = "keys book \<union> fset (free_ids book)"
  have fin: "finite {k \<in> ?U. next_id book \<le> k}"
    by (simp add: keys_def)
  have "next_id book \<in> {k \<in> ?U. next_id book \<le> k}"
    and "next_id book \<notin> {k \<in> ?U. next_id book + 1 \<le> k}"
    and "{k \<in> ?U. next_id book + 1 \<le> k} \<subseteq> {k \<in> ?U. next_id book \<le> k}"
    using used by auto
  then have "{k \<in> ?U. next_id book + 1 \<le> k} \<subset> {k \<in> ?U. next_id book \<le> k}"
    by blast
  then have "card {k \<in> ?U. next_id book + 1 \<le> k} < card {k \<in> ?U. next_id book \<le> k}"
    using fin by (rule psubset_card_mono [rotated])
  then show "(book\<lparr>next_id := next_id book + 1\<rparr>, book)
        \<in> measure (\<lambda>book. card {k \<in> keys book \<union> fset (free_ids book). next_id book \<le> k})"
    by (simp add: keys_def)
qed

declare skip_used_ids.simps [simp del]

text \<open>
  \<^verbatim>\<open>set.pop()\<close> removes and returns an arbitrary element: which one is the set
  implementation's choice, not the program's. The choice is a parameter of the model, a
  function from the set to the element handed out; \<open>pop_ok\<close> says it is an element of the
  set, which is all that Python promises.
\<close>

type_synonym set_pop = "int fset \<Rightarrow> int"

definition pop_ok :: "set_pop \<Rightarrow> bool" where
  "pop_ok pop = (\<forall>S. S \<noteq> {||} \<longrightarrow> pop S |\<in>| S)"

text \<open>
  \<^verbatim>\<open>AddressBook._get_next_record_id\<close>: the loop, then
  \<^verbatim>\<open>return self.free_ids.pop() if self.free_ids else self.next_id\<close>.
  The result is the identifier and the address book as the call leaves it.
\<close>

definition get_next_record_id :: "set_pop \<Rightarrow> 'r address_book \<Rightarrow> int \<times> 'r address_book" where
  "get_next_record_id pop book =
     (let book' = skip_used_ids book
      in if free_ids book' \<noteq> {||}
         then (let x = pop (free_ids book')
               in (x, book'\<lparr>free_ids := free_ids book' |-| {|x|}\<rparr>))
         else (next_id book', book'))"

text \<open>
  \<^verbatim>\<open>AddressBook.add_record\<close>. The method is given a reference to a \<^verbatim>\<open>Record\<close> object.
  \<^verbatim>\<open>record.id = self._get_next_record_id()\<close> writes into that object, and
  \<^verbatim>\<open>self.data[record.id] = record\<close> stores the reference, not a copy: an object that is
  stored under two keys is one object, with one \<^verbatim>\<open>id\<close>.
\<close>

type_synonym ref = nat

record memory =
  book_of :: "ref address_book"
  objects :: "ref \<Rightarrow> py_record"

definition add_record :: "set_pop \<Rightarrow> ref \<Rightarrow> memory \<Rightarrow> memory" where
  "add_record pop r m =
     (let (new_id, book') = get_next_record_id pop (book_of m)
      in \<lparr>book_of = book'\<lparr>data := AList.update new_id r (data book')\<rparr>,
          objects = (objects m)(r := (objects m r)\<lparr>record_id := Some new_id\<rparr>)\<rparr>)"

text \<open>
  The address book with every reference replaced by the record it leads to: what
  \<^verbatim>\<open>self.data.values()\<close> shows to a reader.
\<close>

definition stored :: "memory \<Rightarrow> (int \<times> py_record) list" where
  "stored m = map (\<lambda>(k, r). (k, objects m r)) (data (book_of m))"

definition contents :: "memory \<Rightarrow> py_record address_book" where
  "contents m = \<lparr>data = stored m, next_id = next_id (book_of m), free_ids = free_ids (book_of m)\<rparr>"

text \<open>
  \<^verbatim>\<open>add_record\<close> as a reader of the address book sees it when the object given is not
  in the store at that moment, as is every object that \<^verbatim>\<open>create_record\<close> has just
  built: a new entry holding the record with its identifier, and no other entry changed
  (\<open>contents_add_record\<close> below).
\<close>

definition add_new_record :: "set_pop \<Rightarrow> py_record \<Rightarrow> py_record address_book \<Rightarrow> py_record address_book" where
  "add_new_record pop record book =
     (let (new_id, book') = get_next_record_id pop book
      in book'\<lparr>data := AList.update new_id (record\<lparr>record_id := Some new_id\<rparr>) (data book')\<rparr>)"

text \<open>
  \<^verbatim>\<open>AddressBook.delete_record_by_id\<close>. The argument is what \<^verbatim>\<open>int(record_id_str)\<close>
  makes of the line the user typed: \<open>None\<close> when it raises \<^verbatim>\<open>ValueError\<close>. The method
  returns nothing and prints one of three messages, the first component of the result.
\<close>

datatype report = Removed int | NotFound | InvalidId

definition delete_record_by_id :: "int option \<Rightarrow> 'r address_book \<Rightarrow> report \<times> 'r address_book" where
  "delete_record_by_id parsed book =
     (case parsed of
        None \<Rightarrow> (InvalidId, book)
      | Some rid \<Rightarrow>
          if rid \<in> keys book
          then (Removed rid,
                book\<lparr>data := AList.delete rid (data book),
                     free_ids := finsert rid (free_ids book)\<rparr>)
          else (NotFound, book))"







text \<open>
  Sequences of calls in which every \<^verbatim>\<open>add_record\<close> is given a record of its own, from a
  fresh address book, as a reader of the address book sees them.
\<close>

datatype operation = Add py_record set_pop | Delete "int option"

fun apply_operation :: "operation \<Rightarrow> py_record address_book \<Rightarrow> py_record address_book" where
  "apply_operation (Add record pop) book = add_new_record pop record book"
| "apply_operation (Delete parsed) book = snd (delete_record_by_id parsed book)"

definition run :: "operation list \<Rightarrow> py_record address_book" where
  "run ops = fold apply_operation ops init_book"

fun well_formed :: "operation \<Rightarrow> bool" where
  "well_formed (Add record pop) = pop_ok pop"
| "well_formed (Delete parsed) = True"

text \<open>The facts about the identifiers that every call keeps.\<close>

definition book_invariant :: "'r address_book \<Rightarrow> bool" where
  "book_invariant book =
     (distinct (map fst (data book))
      \<and> (\<forall>k \<in> keys book. 0 < k)
      \<and> (\<forall>k. k |\<in>| free_ids book \<longrightarrow> 0 < k \<and> k \<notin> keys book)
      \<and> 0 < next_id book
      \<and> (\<forall>j. 0 < j \<and> j < next_id book \<longrightarrow> j \<in> keys book \<or> j |\<in>| free_ids book))"

subsection \<open>\<^verbatim>\<open>find_record\<close>\<close>

text \<open>
  \<^verbatim>\<open>a in b\<close> on strings is \<^const>\<open>sublist\<close>. \<^verbatim>\<open>str.lower\<close> belongs to Python, not to
  this program: it is the parameter \<open>lower\<close>.

  The two inner loops, over the phones and over the emails, are the same loop:
  \<^verbatim>\<open>for v in values: if search_term in v.value: found_records.append(record); break\<close>.
\<close>

fun scan_values :: "string \<Rightarrow> py_record \<Rightarrow> string list \<Rightarrow> py_record list \<Rightarrow> py_record list" where
  "scan_values search_term record [] found_records = found_records"
| "scan_values search_term record (v # vs) found_records =
     (if sublist search_term v then found_records @ [record]
      else scan_values search_term record vs found_records)"

text \<open>The body of the outer loop; \<^verbatim>\<open>continue\<close> leaves it after a match on the name.\<close>

definition find_step ::
    "(string \<Rightarrow> string) \<Rightarrow> string \<Rightarrow> py_record \<Rightarrow> py_record list \<Rightarrow> py_record list" where
  "find_step lower search_term record found_records =
     (if sublist (lower search_term) (lower (name record)) then found_records @ [record]
      else scan_values search_term record (emails record)
             (scan_values search_term record (phones record) found_records))"

definition find_record ::
    "(string \<Rightarrow> string) \<Rightarrow> string \<Rightarrow> py_record address_book \<Rightarrow> py_record list" where
  "find_record lower search_term book =
     fold (find_step lower search_term) (map snd (data book)) []"

text \<open>\<^verbatim>\<open>str.lower\<close> on the letters A to Z, for the examples.\<close>

definition ascii_lower :: "string \<Rightarrow> string" where
  "ascii_lower s =
     map (\<lambda>c. let n = of_char c :: nat in if 65 \<le> n \<and> n \<le> 90 then char_of (n + 32) else c) s"

subsection \<open>\<^verbatim>\<open>suggest_correction_search\<close>\<close>

text \<open>The names of all records, then all their phones, then all their emails.\<close>

definition all_search_terms :: "py_record address_book \<Rightarrow> string list" where
  "all_search_terms book =
     map name (map snd (data book))
     @ concat (map phones (map snd (data book)))
     @ concat (map emails (map snd (data book)))"

text \<open>
  Python's \<^verbatim>\<open>min(xs, key=f)\<close>: it raises \<^verbatim>\<open>ValueError\<close> on an empty sequence, and
  otherwise keeps the first item and replaces it only by an item with a strictly smaller key.
\<close>

datatype py_error = ValueError

fun min_loop :: "('a \<Rightarrow> real) \<Rightarrow> 'a list \<Rightarrow> 'a \<Rightarrow> 'a" where
  "min_loop key [] best = best"
| "min_loop key (x # xs) best = min_loop key xs (if key x < key best then x else best)"

fun py_min :: "('a \<Rightarrow> real) \<Rightarrow> 'a list \<Rightarrow> py_error + 'a" where
  "py_min key [] = Inl ValueError"
| "py_min key (x # xs) = Inr (min_loop key xs x)"

definition suggest_correction_search :: "string \<Rightarrow> py_record address_book \<Rightarrow> py_error + string" where
  "suggest_correction_search search_term book =
     py_min (weighted_levenshtein_distance search_term) (all_search_terms book)"

section \<open>Concrete inputs\<close>

text \<open>
  \<^verbatim>\<open>Record.__init__\<close>, \<^verbatim>\<open>Record.add_phone\<close> and \<^verbatim>\<open>Record.add_email\<close>, to build the
  records of the examples the way \<^verbatim>\<open>create_record\<close> does.
\<close>

definition new_record :: "string \<Rightarrow> string option \<Rightarrow> py_record" where
  "new_record n b =
     \<lparr>record_id = None, name = n, phones = [], emails = [], birthday = b, address = None\<rparr>"

definition add_phone :: "string \<Rightarrow> py_record \<Rightarrow> py_record" where
  "add_phone phone r = r\<lparr>phones := phones r @ [phone]\<rparr>"

definition add_email :: "string \<Rightarrow> py_record \<Rightarrow> py_record" where
  "add_email email r = r\<lparr>emails := emails r @ [email]\<rparr>"

text \<open>Two ways a set may hand out its elements: smallest first, and largest first.\<close>

definition pop_smallest :: set_pop where
  "pop_smallest S = fMin S"

definition pop_largest :: set_pop where
  "pop_largest S = fMax S"

text \<open>One record whose phone and whose email both contain \<open>123\<close>, and whose name does not.\<close>

definition jan :: py_record where
  "jan = add_email ''jan123@example.com'' (add_phone ''123456789'' (new_record ''Jan Nowak'' None))"

definition jan_book :: "py_record address_book" where
  "jan_book = run [Add jan pop_smallest]"

text \<open>
  Eight records are added, then the records 8 and 1 are deleted in this order: the pool
  of released identifiers holds 8 and 1.
\<close>

definition released_8_1 :: "py_record address_book" where
  "released_8_1 =
     run (replicate 8 (Add (new_record ''Jan Nowak'' None) pop_largest)
          @ [Delete (Some 8), Delete (Some 1)])"

text \<open>Three records with nothing but a name; their search terms are the three names.\<close>

definition jon_book :: "py_record address_book" where
  "jon_book =
     run [Add (new_record ''john'' None) pop_smallest,
          Add (new_record ''anna'' None) pop_smallest,
          Add (new_record ''jonathan'' None) pop_smallest]"

text \<open>A record found by its name, and one that only its email could match.\<close>

definition anna :: py_record where
  "anna = add_phone ''123456789'' (new_record ''Anna Kowalska'' None)"

definition bob :: py_record where
  "bob = add_email ''bob@example.com'' (new_record ''Robert Lis'' None)"

definition anna_book :: "py_record address_book" where
  "anna_book = run [Add anna pop_smallest, Add bob pop_smallest]"

text \<open>
  Two records with a name only, \<open>john\<close> and \<open>al\<close>; and a record whose name is the
  empty string, which \<^verbatim>\<open>Name\<close> accepts, before a record named \<open>xy\<close>.
\<close>

definition john_al_book :: "py_record address_book" where
  "john_al_book =
     run [Add (new_record ''john'' None) pop_smallest, Add (new_record ''al'' None) pop_smallest]"

definition unnamed_xy_book :: "py_record address_book" where
  "unnamed_xy_book =
     run [Add (new_record [] None) pop_smallest, Add (new_record ''xy'' None) pop_smallest]"




section \<open>The matrix holds the recurrence\<close>

lemma fold_upt_invariant:
  assumes "P a x" and "a \<le> b"
    and "\<And>k y. a \<le> k \<Longrightarrow> k < b \<Longrightarrow> P k y \<Longrightarrow> P (Suc k) (f k y)"
  shows "P b (fold f [a..<b] x)"
  using assms(2,3)
proof (induction b)
  case 0
  with assms(1) show ?case by simp
next
  case (Suc b)
  show ?case
  proof (cases "a = Suc b")
    case True
    with assms(1) show ?thesis by simp
  next
    case False
    with Suc.prems(1) have ab: "a \<le> b" by simp
    have "P b (fold f [a..<b] x)"
      using ab Suc.prems(2) by (intro Suc.IH) auto
    then have "P (Suc b) (f b (fold f [a..<b] x))"
      using ab Suc.prems(2) by simp
    with ab show ?thesis by simp
  qed
qed

lemma shaped_set_cell: "shaped m n M \<Longrightarrow> shaped m n (set_cell i j v M)"
proof -
  assume s: "shaped m n M"
  have "length (M[i := (M ! i)[j := v]] ! k) = n + 1" if "k \<le> m" for k
  proof (cases "k = i")
    case True
    with that s show ?thesis by (simp add: shaped_def)
  next
    case False
    with that s show ?thesis by (simp add: shaped_def)
  qed
  with s show ?thesis by (simp add: shaped_def set_cell_def)
qed

lemma nth_set_cell:
  "shaped m n M \<Longrightarrow> i \<le> m \<Longrightarrow> j \<le> n \<Longrightarrow>
   set_cell i j v M ! i' ! j' = (if i' = i \<and> j' = j then v else M ! i' ! j')"
  by (auto simp: shaped_def set_cell_def nth_list_update)

lemma shaped_zero: "shaped m n (zero_matrix m n)"
  by (simp add: shaped_def zero_matrix_def del: replicate_Suc)

lemma init_column_inv:
  assumes "shaped m n M"
  shows "shaped m n (init_column m M) \<and> (\<forall>i\<le>m. init_column m M ! i ! 0 = i)"
proof -
  let ?P = "\<lambda>k X. shaped m n X \<and> (\<forall>i<k. X ! i ! 0 = i)"
  have "?P (m + 1) (fold (\<lambda>i. set_cell i 0 i) [0..<m + 1] M)"
  proof (rule fold_upt_invariant [where P = ?P])
    show "?P 0 M" using assms by simp
    show "0 \<le> m + 1" by simp
    fix k y assume "0 \<le> k" "k < m + 1" "?P k y"
    then show "?P (Suc k) (set_cell k 0 k y)"
      by (auto simp: shaped_set_cell nth_set_cell [where m = m and n = n] less_Suc_eq)
  qed
  then show ?thesis by (auto simp: init_column_def)
qed

lemma init_row_inv:
  assumes "shaped m n M" and "\<forall>i\<le>m. M ! i ! 0 = i"
  shows "shaped m n (init_row n M) \<and> (\<forall>i\<le>m. init_row n M ! i ! 0 = i)
         \<and> (\<forall>j\<le>n. init_row n M ! 0 ! j = j)"
proof -
  let ?P = "\<lambda>k X. shaped m n X \<and> (\<forall>i\<le>m. X ! i ! 0 = i) \<and> (\<forall>j<k. X ! 0 ! j = j)"
  have "?P (n + 1) (fold (\<lambda>j. set_cell 0 j j) [0..<n + 1] M)"
  proof (rule fold_upt_invariant [where P = ?P])
    show "?P 0 M" using assms by simp
    show "0 \<le> n + 1" by simp
    fix k y assume "0 \<le> k" "k < n + 1" "?P k y"
    then show "?P (Suc k) (set_cell 0 k k y)"
      by (auto simp: shaped_set_cell nth_set_cell [where m = m and n = n] less_Suc_eq)
  qed
  then show ?thesis by (auto simp: init_row_def)
qed

lemma lev_cell_0: "lev_cell s1 s2 i 0 = i"
  by (cases i) auto

lemma filled_fill_cell:
  assumes "filled s1 s2 i j M" "1 \<le> i" "i \<le> length s1" "1 \<le> j" "j \<le> length s2"
  shows "filled s1 s2 i (Suc j) (fill_cell s1 s2 i j M)"
proof -
  obtain i0 j0 where ij: "i = Suc i0" "j = Suc j0"
    using assms(2,4) by (cases i; cases j) auto
  have sh: "shaped (length s1) (length s2) M" using assms(1) by (simp add: filled_def)
  have a: "M ! i0 ! j = lev_cell s1 s2 i0 j" "M ! i0 ! j0 = lev_cell s1 s2 i0 j0"
    using assms(1,5) ij by (auto simp: filled_def)
  have b: "M ! i ! j0 = lev_cell s1 s2 i j0"
    using assms(1,3) ij by (auto simp: filled_def)
  have v: "min (min (M ! (i - 1) ! j + 1) (M ! i ! (j - 1) + 1))
                (M ! (i - 1) ! (j - 1) + (if s1 ! (i - 1) = s2 ! (j - 1) then 0 else 1))
           = lev_cell s1 s2 i j"
    using a b ij by simp
  show ?thesis
    unfolding fill_cell_def Let_def v
    using assms(1,3,5) ij
    by (auto simp: filled_def shaped_set_cell nth_set_cell [OF sh] less_Suc_eq)
qed

lemma filled_fill_row:
  assumes "filled s1 s2 i 1 M" "1 \<le> i" "i \<le> length s1"
  shows "filled s1 s2 i (length s2 + 1) (fill_row s1 s2 i M)"
  unfolding fill_row_def
proof (rule fold_upt_invariant [where P = "filled s1 s2 i"])
  show "filled s1 s2 i 1 M" by fact
  show "1 \<le> length s2 + 1" by simp
  fix k y assume "1 \<le> k" "k < length s2 + 1" "filled s1 s2 i k y"
  then show "filled s1 s2 i (Suc k) (fill_cell s1 s2 i k y)"
    using assms(2,3) by (intro filled_fill_cell) auto
qed

lemma filled_next:
  assumes "filled s1 s2 i (length s2 + 1) M" "i \<le> length s1"
  shows "filled s1 s2 (Suc i) 1 M"
proof -
  have "M ! i' ! j = lev_cell s1 s2 i' j" if "i' < Suc i" "j \<le> length s2" for i' j
  proof (cases "i' = i")
    case True
    with assms that show ?thesis by (simp add: filled_def)
  next
    case False
    with assms that show ?thesis by (simp add: filled_def)
  qed
  with assms show ?thesis by (simp add: filled_def lev_cell_0)
qed

lemma filled_fill_matrix:
  assumes "filled s1 s2 1 1 M"
  shows "filled s1 s2 (length s1 + 1) 1 (fill_matrix s1 s2 M)"
  unfolding fill_matrix_def
proof (rule fold_upt_invariant [where P = "\<lambda>i. filled s1 s2 i 1"])
  show "filled s1 s2 1 1 M" by fact
  show "1 \<le> length s1 + 1" by simp
  fix k y assume "1 \<le> k" "k < length s1 + 1" "filled s1 s2 k 1 y"
  then show "filled s1 s2 (Suc k) 1 (fill_row s1 s2 k y)"
    by (intro filled_next filled_fill_row) auto
qed

lemma levenshtein_matrix_cells:
  assumes "i \<le> length s1" "j \<le> length s2"
  shows "levenshtein_matrix s1 s2 ! i ! j = lev_cell s1 s2 i j"
proof -
  let ?M0 = "init_row (length s2) (init_column (length s1) (zero_matrix (length s1) (length s2)))"
  have "filled s1 s2 1 1 ?M0"
    using init_row_inv [OF init_column_inv [OF shaped_zero, THEN conjunct1]
        init_column_inv [OF shaped_zero, THEN conjunct2]]
    by (auto simp: filled_def)
  then have "filled s1 s2 (length s1 + 1) 1 (levenshtein_matrix s1 s2)"
    unfolding levenshtein_matrix_def by (rule filled_fill_matrix)
  with assms show ?thesis by (auto simp: filled_def)
qed

lemma matrix_distance_lev_cell: "matrix_distance s1 s2 = lev_cell s1 s2 (length s1) (length s2)"
  by (simp add: matrix_distance_def levenshtein_matrix_cells)

section \<open>The two rows hold the recurrence\<close>

lemma enumerate_as_map: "enumerate 0 xs = map (\<lambda>j. (j, xs ! j)) [0..<length xs]"
  by (simp add: enumerate_eq_zip zip_eq_conv comp_def map_nth)

lemma lev_row_Suc:
  "j < length s2 \<Longrightarrow>
   map (lev_cell s1 s2 (Suc i)) [0..<Suc j] @
     [min (min (lev_cell s1 s2 i (Suc j) + 1) (lev_cell s1 s2 (Suc i) j + 1))
          (lev_cell s1 s2 i j + (if s1 ! i \<noteq> s2 ! j then 1 else 0))]
   = map (lev_cell s1 s2 (Suc i)) [0..<Suc (Suc j)]"
  by simp

lemma next_row_lev:
  assumes "previous_row = map (lev_cell s1 s2 i) [0..<length s2 + 1]"
  shows "next_row s2 (i, s1 ! i) previous_row = map (lev_cell s1 s2 (Suc i)) [0..<length s2 + 1]"
proof -
  let ?f = "\<lambda>j. append_cell previous_row (s1 ! i) (j, s2 ! j)"
  let ?P = "\<lambda>k cur. cur = map (lev_cell s1 s2 (Suc i)) [0..<k + 1]"
  have "?P (length s2) (fold ?f [0..<length s2] [i + 1])"
  proof (rule fold_upt_invariant [where P = ?P])
    show "?P 0 [i + 1]" by simp
    show "0 \<le> length s2" by simp
    fix k y assume k: "0 \<le> k" "k < length s2" and y: "?P k y"
    have p1: "previous_row ! (k + 1) = lev_cell s1 s2 i (Suc k)"
      and p0: "previous_row ! k = lev_cell s1 s2 i k"
      using k assms by (simp_all add: nth_append del: upt_Suc)
    have c: "y ! k = lev_cell s1 s2 (Suc i) k"
      using y by (simp add: nth_append del: upt_Suc lev_cell.simps)
    show "?P (Suc k) (?f k y)"
      unfolding append_cell_def Let_def fst_conv snd_conv p1 p0 c
      using lev_row_Suc [OF k(2), of s1 i] y by simp
  qed
  then show ?thesis
    by (simp add: next_row_def enumerate_as_map fold_map comp_def)
qed

lemma final_row_lev:
  "final_row s1 s2 = map (lev_cell s1 s2 (length s1)) [0..<length s2 + 1]"
proof -
  let ?P = "\<lambda>k row. row = map (lev_cell s1 s2 k) [0..<length s2 + 1]"
  have "?P (length s1) (fold (\<lambda>i. next_row s2 (i, s1 ! i)) [0..<length s1] [0..<length s2 + 1])"
  proof (rule fold_upt_invariant [where P = ?P])
    show "?P 0 [0..<length s2 + 1]" by (simp add: map_idI del: upt_Suc)
    show "0 \<le> length s1" by simp
    fix k y assume "0 \<le> k" "k < length s1" "?P k y"
    then show "?P (Suc k) (next_row s2 (k, s1 ! k) y)"
      by (intro next_row_lev)
  qed
  then show ?thesis
    by (simp add: final_row_def enumerate_as_map fold_map comp_def)
qed

lemma length_final_row: "length (final_row s1 s2) = length s2 + 1"
  by (simp add: final_row_lev)

lemma last_final_row: "last (final_row s1 s2) = lev_cell s1 s2 (length s1) (length s2)"
  by (simp add: final_row_lev)

lemma lev_cell_sym: "lev_cell s1 s2 i j = lev_cell s2 s1 j i"
proof (induction s1 s2 i j rule: lev_cell.induct)
  case (1 s1 s2 j)
  then show ?case by (simp add: lev_cell_0)
next
  case (2 s1 s2 i)
  then show ?case by simp
next
  case (3 s1 s2 i j)
  then show ?case by (simp add: min.commute eq_commute)
qed

lemma levenshtein_distance_lev_cell:
  "levenshtein_distance s1 s2 = lev_cell s1 s2 (length s1) (length s2)"
proof (cases "length s1 < length s2")
  case True
  then have "levenshtein_distance s1 s2 = levenshtein_distance s2 s1"
    by (subst levenshtein_distance.simps) simp
  also have "\<dots> = lev_cell s2 s1 (length s2) (length s1)"
    using True by (subst levenshtein_distance.simps) (simp add: last_final_row lev_cell_0)
  finally show ?thesis by (simp add: lev_cell_sym [of s1 s2])
next
  case False
  then show ?thesis
    by (subst levenshtein_distance.simps) (simp add: last_final_row lev_cell_0)
qed

lemma lev_cell_diag: "lev_cell s s i i = 0"
  by (induction i) simp_all

lemma lev_cell_le_max: "lev_cell s1 s2 i j \<le> max i j"
  by (induction s1 s2 i j rule: lev_cell.induct) (auto simp: min_def max_def)

section \<open>Identifiers\<close>

lemma update_fresh: "k \<notin> fst ` set al \<Longrightarrow> AList.update k v al = al @ [(k, v)]"
  by (induction al) auto

lemma skip_used_ids_fields:
  "data (skip_used_ids book) = data book \<and> free_ids (skip_used_ids book) = free_ids book"
proof (induction book rule: skip_used_ids.induct)
  case (1 book)
  then show ?case
    by (subst (1 2) skip_used_ids.simps) (simp add: keys_def)
qed

lemma keys_skip_used_ids: "keys (skip_used_ids book) = keys book"
  by (simp add: keys_def skip_used_ids_fields)

lemma skip_used_ids_next_id:
  "next_id book \<le> next_id (skip_used_ids book)
   \<and> next_id (skip_used_ids book) \<notin> keys book
   \<and> \<not> next_id (skip_used_ids book) |\<in>| free_ids book
   \<and> (\<forall>j. next_id book \<le> j \<and> j < next_id (skip_used_ids book)
          \<longrightarrow> j \<in> keys book \<or> j |\<in>| free_ids book)"
proof (induction book rule: skip_used_ids.induct)
  case (1 book)
  show ?case
  proof (cases "next_id book \<in> keys book \<or> next_id book |\<in>| free_ids book")
    case True
    let ?b = "book\<lparr>next_id := next_id book + 1\<rparr>"
    have eq: "skip_used_ids book = skip_used_ids ?b"
      using True by (subst skip_used_ids.simps) simp
    have k: "keys ?b = keys book" by (simp add: keys_def)
    have ih: "next_id book + 1 \<le> next_id (skip_used_ids ?b)"
      "next_id (skip_used_ids ?b) \<notin> keys book"
      "\<not> next_id (skip_used_ids ?b) |\<in>| free_ids book"
      "\<And>j. next_id book + 1 \<le> j \<Longrightarrow> j < next_id (skip_used_ids ?b)
          \<Longrightarrow> j \<in> keys book \<or> j |\<in>| free_ids book"
      using "1.IH" [OF True] by (simp_all add: k)
    have "j \<in> keys book \<or> j |\<in>| free_ids book"
      if "next_id book \<le> j" "j < next_id (skip_used_ids ?b)" for j
    proof (cases "j = next_id book")
      case True
      with \<open>next_id book \<in> keys book \<or> next_id book |\<in>| free_ids book\<close> show ?thesis by simp
    next
      case False
      with that show ?thesis by (intro ih(4)) simp_all
    qed
    with ih show ?thesis unfolding eq by simp
  next
    case False
    then have "skip_used_ids book = book"
      by (subst skip_used_ids.simps) simp
    with False show ?thesis by auto
  qed
qed

lemma book_invariant_skip: "book_invariant book \<Longrightarrow> book_invariant (skip_used_ids book)"
proof -
  assume inv: "book_invariant book"
  have n: "next_id book \<le> next_id (skip_used_ids book)"
    using skip_used_ids_next_id [of book] by simp
  have "j \<in> keys book \<or> j |\<in>| free_ids book" if "0 < j" "j < next_id (skip_used_ids book)" for j
  proof (cases "j < next_id book")
    case True
    with inv that show ?thesis by (simp add: book_invariant_def)
  next
    case False
    with that skip_used_ids_next_id [of book] show ?thesis by simp
  qed
  with inv n show ?thesis
    by (simp add: book_invariant_def keys_skip_used_ids skip_used_ids_fields)
qed

lemma get_next_record_id_fresh:
  assumes "book_invariant book" "pop_ok pop"
  shows "fst (get_next_record_id pop book) \<notin> keys book \<and> 0 < fst (get_next_record_id pop book)"
proof (cases "free_ids book = {||}")
  case True
  then show ?thesis
    using skip_used_ids_next_id [of book] assms(1)
    by (simp add: get_next_record_id_def Let_def skip_used_ids_fields book_invariant_def)
next
  case False
  with assms(2) have "pop (free_ids book) |\<in>| free_ids book" by (simp add: pop_ok_def)
  with assms(1) False show ?thesis
    by (simp add: get_next_record_id_def Let_def skip_used_ids_fields book_invariant_def)
qed

lemma get_next_record_id_book:
  "snd (get_next_record_id pop book) =
     (skip_used_ids book)\<lparr>free_ids := free_ids book |-| {|fst (get_next_record_id pop book)|}\<rparr>"
proof (cases "free_ids book = {||}")
  case True
  then show ?thesis
    by (simp add: get_next_record_id_def Let_def skip_used_ids_fields)
next
  case False
  then show ?thesis
    by (simp add: get_next_record_id_def Let_def skip_used_ids_fields)
qed

lemma book_invariant_insert:
  assumes "book_invariant book" "pop_ok pop"
  shows "book_invariant ((snd (get_next_record_id pop book))\<lparr>data :=
           AList.update (fst (get_next_record_id pop book)) v
             (data (snd (get_next_record_id pop book)))\<rparr>)"
proof -
  define new_id where "new_id = fst (get_next_record_id pop book)"
  define sk where "sk = skip_used_ids book"
  have fresh: "new_id \<notin> keys book" "0 < new_id"
    using get_next_record_id_fresh [OF assms] by (simp_all add: new_id_def)
  have inv: "book_invariant sk"
    unfolding sk_def using assms(1) by (rule book_invariant_skip)
  have sk: "data sk = data book" "free_ids sk = free_ids book" "keys sk = keys book"
    by (simp_all add: sk_def skip_used_ids_fields keys_skip_used_ids)
  have res: "(snd (get_next_record_id pop book))\<lparr>data :=
           AList.update new_id v (data (snd (get_next_record_id pop book)))\<rparr>
         = sk\<lparr>free_ids := free_ids book |-| {|new_id|}, data := data book @ [(new_id, v)]\<rparr>"
    using fresh(1)
    by (simp add: get_next_record_id_book new_id_def [symmetric] sk_def [symmetric] sk
        update_fresh keys_def)
  have d: "new_id \<notin> fst ` set (data book)" using fresh(1) by (simp add: keys_def)
  show ?thesis
    unfolding new_id_def [symmetric] res using inv fresh d
    by (auto simp: book_invariant_def keys_def sk(1,2))
qed

lemma book_invariant_add_new_record:
  assumes "book_invariant book" "pop_ok pop"
  shows "book_invariant (add_new_record pop record book)"
  using book_invariant_insert [OF assms]
  by (simp add: add_new_record_def split_beta)

lemma book_of_add_record:
  "book_of (add_record pop r m) =
     (snd (get_next_record_id pop (book_of m)))\<lparr>data :=
        AList.update (fst (get_next_record_id pop (book_of m))) r
          (data (snd (get_next_record_id pop (book_of m))))\<rparr>"
  by (simp add: add_record_def split_beta)

lemma objects_add_record:
  "objects (add_record pop r m) =
     (objects m)(r := (objects m r)\<lparr>record_id := Some (fst (get_next_record_id pop (book_of m)))\<rparr>)"
  by (simp add: add_record_def split_beta)


lemma book_invariant_delete:
  assumes "book_invariant book"
  shows "book_invariant (snd (delete_record_by_id parsed book))"
proof (cases parsed)
  case None
  with assms show ?thesis by (simp add: delete_record_by_id_def)
next
  case (Some rid)
  show ?thesis
  proof (cases "rid \<in> keys book")
    case False
    with Some assms show ?thesis by (simp add: delete_record_by_id_def)
  next
    case True
    have k: "fst ` set (AList.delete rid (data book)) = fst ` set (data book) - {rid}"
      by (auto simp: AList.delete_eq)
    have s: "set (AList.delete rid (data book)) \<subseteq> set (data book)"
      by (auto simp: AList.delete_eq)
    show ?thesis
      using Some True assms s
      by (auto simp: delete_record_by_id_def book_invariant_def keys_def k distinct_delete)
  qed
qed

lemma book_invariant_init: "book_invariant init_book"
  by (simp add: book_invariant_def init_book_def keys_def)

lemma book_invariant_fold:
  "book_invariant book \<Longrightarrow> \<forall>op \<in> set ops. well_formed op \<Longrightarrow>
   book_invariant (fold apply_operation ops book)"
proof (induction ops arbitrary: book)
  case Nil
  then show ?case by simp
next
  case (Cons op ops)
  have "book_invariant (apply_operation op book)"
  proof (cases op)
    case (Add r pop)
    with Cons.prems show ?thesis by (simp add: book_invariant_add_new_record)
  next
    case (Delete parsed)
    with Cons.prems show ?thesis by (simp add: book_invariant_delete)
  qed
  with Cons show ?case by simp
qed

lemma book_invariant_run: "\<forall>op \<in> set ops. well_formed op \<Longrightarrow> book_invariant (run ops)"
  by (simp add: run_def book_invariant_fold book_invariant_init)

lemma pop_ok_pop_smallest: "pop_ok pop_smallest"
  by (simp add: pop_ok_def pop_smallest_def)

lemma pop_ok_pop_largest: "pop_ok pop_largest"
  by (simp add: pop_ok_def pop_largest_def)

lemma least_unused_when_pool_empty:
  assumes "book_invariant book" "free_ids book = {||}"
  shows "0 < fst (get_next_record_id pop book)
     \<and> fst (get_next_record_id pop book) \<notin> keys book
     \<and> (\<forall>j. 0 < j \<and> j < fst (get_next_record_id pop book) \<longrightarrow> j \<in> keys book)"
proof -
  have g: "fst (get_next_record_id pop book) = next_id (skip_used_ids book)"
    using assms(2) by (simp add: get_next_record_id_def Let_def skip_used_ids_fields)
  have inv: "book_invariant (skip_used_ids book)"
    using assms(1) by (rule book_invariant_skip)
  show ?thesis
    unfolding g using inv assms(2) skip_used_ids_next_id [of book]
    by (auto simp: book_invariant_def keys_skip_used_ids skip_used_ids_fields)
qed






section \<open>The records behind the references\<close>

lemma keys_contents: "keys (contents m) = keys (book_of m)"
  by (force simp: keys_def contents_def stored_def)

lemma skip_used_ids_same_keys:
  "keys b' = keys b \<Longrightarrow> next_id b' = next_id b \<Longrightarrow> free_ids b' = free_ids b \<Longrightarrow>
   next_id (skip_used_ids b') = next_id (skip_used_ids b)"
proof (induction b arbitrary: b' rule: skip_used_ids.induct)
  case (1 book)
  show ?case
  proof (cases "next_id book \<in> keys book \<or> next_id book |\<in>| free_ids book")
    case True
    have "next_id (skip_used_ids (b'\<lparr>next_id := next_id b' + 1\<rparr>))
        = next_id (skip_used_ids (book\<lparr>next_id := next_id book + 1\<rparr>))"
      using "1.prems" by (intro "1.IH" [OF True]) (simp_all add: keys_def)
    then show ?thesis
      using True "1.prems"
      by (subst (1 2) skip_used_ids.simps) simp
  next
    case False
    then show ?thesis
      using "1.prems" by (subst (1 2) skip_used_ids.simps) simp
  qed
qed

lemma skip_used_ids_only_next_id:
  "skip_used_ids b = b\<lparr>next_id := next_id (skip_used_ids b)\<rparr>"
proof (induction b rule: skip_used_ids.induct)
  case (1 book)
  show ?case
  proof (cases "next_id book \<in> keys book \<or> next_id book |\<in>| free_ids book")
    case True
    have e: "skip_used_ids book = skip_used_ids (book\<lparr>next_id := next_id book + 1\<rparr>)"
      using True by (subst skip_used_ids.simps) simp
    have "skip_used_ids (book\<lparr>next_id := next_id book + 1\<rparr>)
        = book\<lparr>next_id := next_id (skip_used_ids (book\<lparr>next_id := next_id book + 1\<rparr>))\<rparr>"
      using "1.IH" [OF True] by simp
    then show ?thesis unfolding e .
  next
    case False
    then have "skip_used_ids book = book"
      by (subst skip_used_ids.simps) simp
    then show ?thesis by simp
  qed
qed

lemma get_next_record_id_contents:
  "fst (get_next_record_id pop (contents m)) = fst (get_next_record_id pop (book_of m))
   \<and> next_id (snd (get_next_record_id pop (contents m)))
       = next_id (snd (get_next_record_id pop (book_of m)))"
proof -
  have n: "next_id (skip_used_ids (contents m)) = next_id (skip_used_ids (book_of m))"
    by (rule skip_used_ids_same_keys) (simp_all add: keys_contents, simp_all add: contents_def)
  have f: "free_ids (contents m) = free_ids (book_of m)" by (simp add: contents_def)
  show ?thesis
    by (simp add: get_next_record_id_def Let_def skip_used_ids_fields f n)
qed

lemma contents_add_record:
  assumes "book_invariant (book_of m)" "pop_ok pop" "r \<notin> snd ` set (data (book_of m))"
  shows "contents (add_record pop r m) = add_new_record pop (objects m r) (contents m)"
proof -
  define new_id where "new_id = fst (get_next_record_id pop (book_of m))"
  have fresh: "new_id \<notin> keys (book_of m)"
    using get_next_record_id_fresh [OF assms(1,2)] by (simp add: new_id_def)
  have g: "fst (get_next_record_id pop (contents m)) = new_id"
    by (simp add: get_next_record_id_contents new_id_def)
  have d: "data (book_of (add_record pop r m)) = data (book_of m) @ [(new_id, r)]"
    using fresh
    by (simp add: book_of_add_record get_next_record_id_book new_id_def [symmetric]
        skip_used_ids_fields update_fresh keys_def)
  have o: "objects (add_record pop r m) = (objects m)(r := (objects m r)\<lparr>record_id := Some new_id\<rparr>)"
    by (simp add: objects_add_record new_id_def)
  have st: "stored (add_record pop r m)
      = stored m @ [(new_id, (objects m r)\<lparr>record_id := Some new_id\<rparr>)]"
    unfolding stored_def d o using assms(3) by (auto simp: rev_image_eqI)
  have fresh': "new_id \<notin> fst ` set (stored m)"
    using fresh keys_contents [of m] by (simp add: keys_def contents_def)
  have l: "contents (add_record pop r m) =
      \<lparr>data = stored m @ [(new_id, (objects m r)\<lparr>record_id := Some new_id\<rparr>)],
       next_id = next_id (skip_used_ids (book_of m)),
       free_ids = free_ids (book_of m) |-| {|new_id|}\<rparr>"
    by (simp add: contents_def st book_of_add_record get_next_record_id_book
        new_id_def [symmetric] skip_used_ids_fields)
  have n: "next_id (skip_used_ids (contents m)) = next_id (skip_used_ids (book_of m))"
    by (rule skip_used_ids_same_keys) (simp_all add: keys_contents, simp_all add: contents_def)
  have rhs: "add_new_record pop (objects m r) (contents m) =
      \<lparr>data = stored m @ [(new_id, (objects m r)\<lparr>record_id := Some new_id\<rparr>)],
       next_id = next_id (skip_used_ids (book_of m)),
       free_ids = free_ids (book_of m) |-| {|new_id|}\<rparr>"
  proof -
    have sk: "skip_used_ids (contents m) =
        \<lparr>data = stored m, next_id = next_id (skip_used_ids (book_of m)),
         free_ids = free_ids (book_of m)\<rparr>"
      by (subst skip_used_ids_only_next_id) (simp add: n, simp add: contents_def)
    show ?thesis
      using fresh'
      by (simp add: add_new_record_def split_beta g get_next_record_id_book sk update_fresh)
        (simp add: contents_def)
  qed
  show ?thesis by (simp add: l rhs)
qed

section \<open>The weighted distance and the suggestion\<close>

lemma weighted_nonempty:
  assumes "a \<noteq> []" "b \<noteq> []"
  shows "weighted_levenshtein_distance a b
           = real (levenshtein_distance a b) / real (max (length a) (length b))
         \<and> 0 \<le> weighted_levenshtein_distance a b \<and> weighted_levenshtein_distance a b \<le> 1"
proof -
  have w: "weighted_levenshtein_distance a b
           = real (levenshtein_distance a b) / real (max (length a) (length b))"
    using assms
    by (simp add: weighted_levenshtein_distance_def Let_def
        levenshtein_distance_lev_cell matrix_distance_lev_cell)
  have "levenshtein_distance a b \<le> max (length a) (length b)"
    by (simp add: levenshtein_distance_lev_cell lev_cell_le_max)
  then have "real (levenshtein_distance a b) \<le> real (max (length a) (length b))"
    by (rule iffD2 [OF of_nat_le_iff])
  moreover have "0 < real (max (length a) (length b))"
    using assms by (cases a) simp_all
  ultimately have "real (levenshtein_distance a b) / real (max (length a) (length b)) \<le> 1"
    by (simp add: divide_le_eq_1)
  with w show ?thesis by simp
qed

lemma weighted_both_empty: "weighted_levenshtein_distance [] [] = 0"
  by (simp add: weighted_levenshtein_distance_def)

lemma min_loop_first_minimum:
  "\<exists>pre post. best # xs = pre @ min_loop key xs best # post
     \<and> (\<forall>x \<in> set pre. key (min_loop key xs best) < key x)
     \<and> (\<forall>x \<in> set post. key (min_loop key xs best) \<le> key x)"
proof (induction xs arbitrary: best)
  case Nil
  have "[best] = [] @ best # []" by simp
  then show ?case by fastforce
next
  case (Cons x xs)
  define b where "b = (if key x < key best then x else best)"
  define r where "r = min_loop key xs b"
  from Cons.IH [of b] obtain pre post where
    d: "b # xs = pre @ r # post"
    and p: "\<forall>y \<in> set pre. key r < key y"
    and q: "\<forall>y \<in> set post. key r \<le> key y"
    unfolding r_def by blast
  have res: "min_loop key (x # xs) best = r" by (simp add: r_def b_def)
  have "\<exists>pre' post'. best # x # xs = pre' @ r # post'
     \<and> (\<forall>y \<in> set pre'. key r < key y) \<and> (\<forall>y \<in> set post'. key r \<le> key y)"
  proof (cases pre)
    case Nil
    with d have e: "r = b" "post = xs" by simp_all
    show ?thesis
    proof (cases "key x < key best")
      case True
      then have "b = x" by (simp add: b_def)
      with e have "best # x # xs = [best] @ r # post" by simp
      moreover have "\<forall>y \<in> set [best]. key r < key y" using True e \<open>b = x\<close> by simp
      ultimately show ?thesis using q by blast
    next
      case False
      then have "b = best" by (simp add: b_def)
      with e have "best # x # xs = [] @ r # (x # xs)" by simp
      moreover have "\<forall>y \<in> set (x # xs). key r \<le> key y"
        using False e q \<open>b = best\<close> by auto
      moreover have "\<forall>y \<in> set []. key r < key y" by simp
      ultimately show ?thesis by blast
    qed
  next
    case (Cons p' pre')
    with d have e: "p' = b" "xs = pre' @ r # post" by simp_all
    have "key r < key b" using p Cons e by simp
    then have "key r < key best" "key r < key x" by (auto simp: b_def split: if_splits)
    then have "\<forall>y \<in> set (best # x # pre'). key r < key y" using p Cons by simp
    moreover have "best # x # xs = (best # x # pre') @ r # post" using e by simp
    ultimately show ?thesis using q by blast
  qed
  then show ?case unfolding res .
qed

lemma py_min_first_minimum:
  assumes "cs \<noteq> []"
  shows "\<exists>pre c post. cs = pre @ c # post \<and> py_min key cs = Inr c
     \<and> (\<forall>x \<in> set pre. key c < key x) \<and> (\<forall>x \<in> set post. key c \<le> key x)"
proof -
  from assms obtain y ys where cs: "cs = y # ys" by (cases cs) auto
  from min_loop_first_minimum [of y ys key] show ?thesis
    unfolding cs by auto
qed

lemma jon_terms: "all_search_terms jon_book = [''john'', ''anna'', ''jonathan'']"
  by code_simp

lemma jon_weights:
  "weighted_levenshtein_distance ''jon'' ''john'' = 1 / 4"
  "weighted_levenshtein_distance ''jon'' ''anna'' = 3 / 4"
  "weighted_levenshtein_distance ''jon'' ''jonathan'' = 5 / 8"
  by code_simp+

lemma suggest_correction_search_least_key:
  assumes "all_search_terms book \<noteq> []"
  shows "\<exists>pre c post. all_search_terms book = pre @ c # post
     \<and> suggest_correction_search search_term book = Inr c
     \<and> (\<forall>x \<in> set pre. weighted_levenshtein_distance search_term c
                         < weighted_levenshtein_distance search_term x)
     \<and> (\<forall>x \<in> set post. weighted_levenshtein_distance search_term c
                         \<le> weighted_levenshtein_distance search_term x)"
  using py_min_first_minimum [OF assms, of "weighted_levenshtein_distance search_term"]
  by (simp add: suggest_correction_search_def)

text \<open>
  With a non-empty search term and non-empty candidates, the key is the distance divided
  by the length of the longer string, and the result is the first candidate of the least
  such quotient.
\<close>

lemma suggest_correction_search_normalized:
  assumes "all_search_terms book \<noteq> []" "search_term \<noteq> []"
    and "\<forall>x \<in> set (all_search_terms book). x \<noteq> []"
  shows "\<exists>pre c post. all_search_terms book = pre @ c # post
     \<and> suggest_correction_search search_term book = Inr c
     \<and> (\<forall>x \<in> set pre.
           real (levenshtein_distance search_term c) / real (max (length search_term) (length c))
           < real (levenshtein_distance search_term x) / real (max (length search_term) (length x)))
     \<and> (\<forall>x \<in> set post.
           real (levenshtein_distance search_term c) / real (max (length search_term) (length c))
           \<le> real (levenshtein_distance search_term x) / real (max (length search_term) (length x)))"
proof -
  from suggest_correction_search_least_key [OF assms(1), of search_term]
  obtain pre c post where d: "all_search_terms book = pre @ c # post"
    and r: "suggest_correction_search search_term book = Inr c"
    and p: "\<forall>x \<in> set pre. weighted_levenshtein_distance search_term c
                         < weighted_levenshtein_distance search_term x"
    and q: "\<forall>x \<in> set post. weighted_levenshtein_distance search_term c
                         \<le> weighted_levenshtein_distance search_term x"
    by blast
  have w: "weighted_levenshtein_distance search_term x
      = real (levenshtein_distance search_term x) / real (max (length search_term) (length x))"
    if "x \<in> set (all_search_terms book)" for x
    using weighted_nonempty [OF assms(2), of x] assms(3) that by blast
  have "\<forall>x \<in> set pre.
           real (levenshtein_distance search_term c) / real (max (length search_term) (length c))
           < real (levenshtein_distance search_term x) / real (max (length search_term) (length x))"
    using p w unfolding d by simp
  moreover have "\<forall>x \<in> set post.
           real (levenshtein_distance search_term c) / real (max (length search_term) (length c))
           \<le> real (levenshtein_distance search_term x) / real (max (length search_term) (length x))"
    using q w unfolding d by simp
  ultimately show ?thesis using d r by blast
qed

lemma suggest_correction_search_jon:
  "suggest_correction_search ''jon'' jon_book = Inr ''john''"
  by (simp add: suggest_correction_search_def jon_terms jon_weights)

section \<open>Searching\<close>

lemma scan_values_eq:
  "scan_values t r vs found = (if \<exists>v \<in> set vs. sublist t v then found @ [r] else found)"
  by (induction vs) auto

lemma find_step_set:
  "set (find_step lower t r found) =
     set found \<union> (if sublist (lower t) (lower (name r))
                      \<or> (\<exists>p \<in> set (phones r). sublist t p)
                      \<or> (\<exists>e \<in> set (emails r). sublist t e) then {r} else {})"
  by (auto simp: find_step_def scan_values_eq)

lemma fold_find_step_set:
  "set (fold (find_step lower t) rs found) =
     set found \<union> {r \<in> set rs. sublist (lower t) (lower (name r))
                      \<or> (\<exists>p \<in> set (phones r). sublist t p)
                      \<or> (\<exists>e \<in> set (emails r). sublist t e)}"
proof (induction rs arbitrary: found)
  case Nil
  then show ?case by simp
next
  case (Cons r rs)
  show ?case
    unfolding fold_simps Cons.IH find_step_set by auto
qed

section \<open>The claims\<close>

text \<open>
  Claim C1 says that a record matching the term on several fields is returned once. A
  match on the name ends the round for that record, and each inner loop stops at its first
  match; but the loop over the emails still runs after the loop over the phones has
  matched. For the address book holding the one record \<open>jan\<close>, whose phone and whose
  email both contain \<open>123\<close>, \<^verbatim>\<open>find_record("123")\<close> returns that record twice.
\<close>

theorem find_record_phone_and_email_twice:
  "find_record ascii_lower ''123'' jan_book = [jan\<lparr>record_id := Some 1\<rparr>, jan\<lparr>record_id := Some 1\<rparr>]
   \<and> map snd (data jan_book) = [jan\<lparr>record_id := Some 1\<rparr>]"
  by code_simp

text \<open>
  Claim C2 says that \<^verbatim>\<open>weighted_levenshtein_distance(a, b)\<close> is the distance divided by
  the length of the longer string and lies between 0 and 1. When exactly one string is
  empty the function returns the length of the other before it reaches the division:
  for the empty string and \<open>ab\<close> it returns 2, where the distance divided by the longer
  length is 1. (For two non-empty strings, and for two empty ones, the claim holds:
  \<open>weighted_nonempty\<close>, \<open>weighted_both_empty\<close>.)
\<close>

theorem weighted_levenshtein_distance_empty_not_normalized:
  "weighted_levenshtein_distance '''' ''ab'' = 2
   \<and> real (levenshtein_distance '''' ''ab'') / real (max (length '''') (length ''ab'')) = 1"
  by code_simp

text \<open>
  Claim C3 says that the allocator hands out the minimum of \<^verbatim>\<open>free_ids\<close> when that set
  is not empty. The source calls \<^verbatim>\<open>set.pop()\<close>, which hands out an arbitrary element.
  After eight additions and the deletion of 8 and then of 1, the pool is \<open>{1, 8}\<close>; a set
  that hands out 8 first is within what \<^verbatim>\<open>set.pop()\<close> promises (CPython's does so here:
  8 sits in slot 0 of the table, 1 in slot 1), and the allocator returns 8, not 1.
\<close>

theorem get_next_record_id_not_minimum:
  "free_ids released_8_1 \<noteq> {||}
   \<and> pop_largest (free_ids released_8_1) |\<in>| free_ids released_8_1
   \<and> fst (get_next_record_id pop_largest released_8_1) = 8
   \<and> fMin (free_ids released_8_1) = 1"
  by code_simp

text \<open>
  Claim C3, amended. In every state reached from a fresh address book by \<^verbatim>\<open>add_record\<close>
  and \<^verbatim>\<open>delete_record_by_id\<close>: if \<^verbatim>\<open>free_ids\<close> is not empty, the allocator returns an
  element of \<^verbatim>\<open>free_ids\<close>, the one \<^verbatim>\<open>set.pop()\<close> hands out, and removes it from the
  set; if \<^verbatim>\<open>free_ids\<close> is empty, it returns the smallest positive integer that is not a
  key of the store, and the set stays empty.
\<close>

theorem get_next_record_id_pool_or_least:
  assumes "\<forall>op \<in> set ops. well_formed op" and "pop_ok pop"
  shows "(free_ids (run ops) \<noteq> {||} \<longrightarrow>
            fst (get_next_record_id pop (run ops)) |\<in>| free_ids (run ops)
            \<and> free_ids (snd (get_next_record_id pop (run ops)))
                = free_ids (run ops) |-| {|fst (get_next_record_id pop (run ops))|})
     \<and> (free_ids (run ops) = {||} \<longrightarrow>
            free_ids (snd (get_next_record_id pop (run ops))) = {||}
            \<and> 0 < fst (get_next_record_id pop (run ops))
            \<and> fst (get_next_record_id pop (run ops)) \<notin> keys (run ops)
            \<and> (\<forall>j. 0 < j \<and> j < fst (get_next_record_id pop (run ops)) \<longrightarrow> j \<in> keys (run ops)))"
proof -
  have inv: "book_invariant (run ops)"
    using assms(1) by (rule book_invariant_run)
  have a: "fst (get_next_record_id pop (run ops)) |\<in>| free_ids (run ops)"
    if "free_ids (run ops) \<noteq> {||}"
    using that assms(2)
    by (simp add: get_next_record_id_def Let_def skip_used_ids_fields pop_ok_def)
  have b: "free_ids (snd (get_next_record_id pop (run ops)))
          = free_ids (run ops) |-| {|fst (get_next_record_id pop (run ops))|}"
    by (simp add: get_next_record_id_book)
  from a b least_unused_when_pool_empty [OF inv, of pop] show ?thesis
    by auto
qed

theorem get_next_record_id_pool_or_least_witness:
  "pop_ok pop_largest \<and> free_ids released_8_1 \<noteq> {||}
   \<and> fst (get_next_record_id pop_largest released_8_1) |\<in>| free_ids released_8_1
   \<and> free_ids (snd (get_next_record_id pop_largest released_8_1))
       = free_ids released_8_1 |-| {|fst (get_next_record_id pop_largest released_8_1)|}
   \<and> free_ids jan_book = {||}
   \<and> 0 < fst (get_next_record_id pop_largest jan_book)
   \<and> fst (get_next_record_id pop_largest jan_book) \<notin> keys jan_book"
proof -
  have wf: "\<forall>op \<in> set (replicate 8 (Add (new_record ''Jan Nowak'' None) pop_largest)
          @ [Delete (Some 8), Delete (Some 1)]). well_formed op"
    by (auto simp: pop_ok_pop_largest)
  have wf': "\<forall>op \<in> set [Add jan pop_smallest]. well_formed op"
    by (simp add: pop_ok_pop_smallest)
  have ne: "free_ids released_8_1 \<noteq> {||}" and e: "free_ids jan_book = {||}"
    by code_simp+
  show ?thesis
    using get_next_record_id_pool_or_least [OF wf pop_ok_pop_largest]
      get_next_record_id_pool_or_least [OF wf' pop_ok_pop_largest] ne e pop_ok_pop_largest
    by (simp add: released_8_1_def jan_book_def)
qed




text \<open>
  Claim C5 says that \<^verbatim>\<open>suggest_correction_search\<close> returns the first candidate of the
  least normalized distance, the distance divided by the length of the longer string. The
  key of its \<^verbatim>\<open>min\<close> is \<^verbatim>\<open>weighted_levenshtein_distance\<close>, which returns a length where
  one string is empty (claim C2). For the empty search term and the candidates \<open>john\<close>,
  \<open>al\<close> the normalized distance is 1 for both, and the function returns the second,
  \<open>al\<close>. For the search term \<open>ab\<close> and the candidates made of an empty name and
  \<open>xy\<close> the normalized distance is 1 for both again, and the function returns the second,
  \<open>xy\<close>. (With a non-empty search term and non-empty candidates the claim holds:
  \<open>suggest_correction_search_normalized\<close>, \<open>suggest_correction_search_jon\<close>.)
\<close>

theorem suggest_correction_search_ranks_by_length:
  "all_search_terms john_al_book = [''john'', ''al'']
   \<and> suggest_correction_search [] john_al_book = Inr ''al''
   \<and> real (levenshtein_distance [] ''john'') / real (max (length ([] :: string)) (length ''john'')) = 1
   \<and> real (levenshtein_distance [] ''al'') / real (max (length ([] :: string)) (length ''al'')) = 1
   \<and> all_search_terms unnamed_xy_book = [[], ''xy'']
   \<and> suggest_correction_search ''ab'' unnamed_xy_book = Inr ''xy''
   \<and> real (levenshtein_distance ''ab'' []) / real (max (length ''ab'') (length ([] :: string))) = 1
   \<and> real (levenshtein_distance ''ab'' ''xy'') / real (max (length ''ab'') (length ''xy'')) = 1"
  by code_simp

text \<open>
  Claim C6. For all strings \<open>a\<close> and \<open>b\<close>, the two-row \<^verbatim>\<open>levenshtein_distance(a, b)\<close>
  returns the entry \<^verbatim>\<open>matrix[len_s1][len_s2]\<close> of the full matrix that
  \<^verbatim>\<open>weighted_levenshtein_distance\<close> builds before it divides. In that matrix the first
  column and the first row hold their index, and every other cell is the minimum of the
  cell above plus 1, the cell to the left plus 1, and the cell diagonally above plus the
  substitution cost (0 for equal characters, 1 otherwise).
\<close>

theorem levenshtein_distance_is_matrix_distance:
  "levenshtein_distance a b = matrix_distance a b
   \<and> (i \<le> length a \<longrightarrow> levenshtein_matrix a b ! i ! 0 = i)
   \<and> (j \<le> length b \<longrightarrow> levenshtein_matrix a b ! 0 ! j = j)
   \<and> (i < length a \<and> j < length b \<longrightarrow>
        levenshtein_matrix a b ! (i + 1) ! (j + 1) =
          min (min (levenshtein_matrix a b ! i ! (j + 1) + 1)
                   (levenshtein_matrix a b ! (i + 1) ! j + 1))
              (levenshtein_matrix a b ! i ! j + (if a ! i = b ! j then 0 else 1)))"
  by (simp add: levenshtein_distance_lev_cell matrix_distance_lev_cell
      levenshtein_matrix_cells lev_cell_0)

theorem levenshtein_distance_is_matrix_distance_witness:
  "(1::nat) \<le> length ''ab'' \<and> (1::nat) < length ''ab'' \<and> (1::nat) < length ''cb''
   \<and> levenshtein_distance ''ab'' ''cb'' = matrix_distance ''ab'' ''cb''
   \<and> levenshtein_matrix ''ab'' ''cb'' ! 1 ! 0 = 1
   \<and> levenshtein_matrix ''ab'' ''cb'' ! 0 ! 1 = 1
   \<and> levenshtein_matrix ''ab'' ''cb'' ! 2 ! 2 =
          min (min (levenshtein_matrix ''ab'' ''cb'' ! 1 ! 2 + 1)
                   (levenshtein_matrix ''ab'' ''cb'' ! 2 ! 1 + 1))
              (levenshtein_matrix ''ab'' ''cb'' ! 1 ! 1 + 0)"
  using levenshtein_distance_is_matrix_distance [of "''ab''" "''cb''" 1 1]
  by (simp add: numeral_2_eq_2)

text \<open>
  Claim C7. For all strings \<open>a\<close>, \<open>b\<close> and \<open>s\<close>: \<^verbatim>\<open>levenshtein_distance\<close> is symmetric,
  the distance of a string to itself is 0, and the distance of the empty string to \<open>s\<close> is
  the length of \<open>s\<close>.
\<close>

theorem levenshtein_distance_symmetric_zero_empty:
  "levenshtein_distance a b = levenshtein_distance b a
   \<and> levenshtein_distance a a = 0
   \<and> levenshtein_distance [] s = length s"
  by (simp add: levenshtein_distance_lev_cell lev_cell_diag lev_cell_sym [of a b])

text \<open>
  Claim C8. For every address book and term, \<^verbatim>\<open>find_record\<close> returns exactly the stored
  records whose lower-cased name contains the lower-cased term, or one of whose phones or
  emails contains the term as it is written. With the name \<open>Anna Kowalska\<close> stored, both
  \<open>anna\<close> and \<open>ANNA\<close> find the record; with the email \<open>bob@example.com\<close> stored,
  \<open>bob@\<close> finds the record and \<open>BOB@\<close> does not.
\<close>

theorem find_record_case_sensitivity:
  "set (find_record lower t book) =
     {r \<in> snd ` set (data book).
        sublist (lower t) (lower (name r))
        \<or> (\<exists>p \<in> set (phones r). sublist t p)
        \<or> (\<exists>e \<in> set (emails r). sublist t e)}
   \<and> find_record ascii_lower ''anna'' anna_book = [anna\<lparr>record_id := Some 1\<rparr>]
   \<and> find_record ascii_lower ''ANNA'' anna_book = [anna\<lparr>record_id := Some 1\<rparr>]
   \<and> find_record ascii_lower ''bob@'' anna_book = [bob\<lparr>record_id := Some 2\<rparr>]
   \<and> find_record ascii_lower ''BOB@'' anna_book = []"
proof -
  have "find_record ascii_lower ''anna'' anna_book = [anna\<lparr>record_id := Some 1\<rparr>]"
    "find_record ascii_lower ''ANNA'' anna_book = [anna\<lparr>record_id := Some 1\<rparr>]"
    "find_record ascii_lower ''bob@'' anna_book = [bob\<lparr>record_id := Some 2\<rparr>]"
    "find_record ascii_lower ''BOB@'' anna_book = []"
    by code_simp+
  then show ?thesis
    by (simp add: find_record_def fold_find_step_set)
qed

text \<open>
  Claim C9. \<^verbatim>\<open>delete_record_by_id\<close> with an identifier that is not a key of the store
  prints the not-found message, raises nothing, and leaves the address book as it was:
  the same keys, the same \<^verbatim>\<open>free_ids\<close>, the same \<^verbatim>\<open>next_id\<close>.
\<close>

theorem delete_absent_id_not_found:
  "rid \<notin> keys book \<Longrightarrow> delete_record_by_id (Some rid) book = (NotFound, book)"
  by (simp add: delete_record_by_id_def)

theorem delete_absent_id_not_found_witness:
  "5 \<notin> keys jan_book \<and> delete_record_by_id (Some 5) jan_book = (NotFound, jan_book)"
proof -
  have "5 \<notin> keys jan_book" by code_simp
  then show ?thesis using delete_absent_id_not_found [of 5 jan_book] by simp
qed

text \<open>
  Claim C10. In every state reached from a fresh address book by \<^verbatim>\<open>add_record\<close> and
  \<^verbatim>\<open>delete_record_by_id\<close>, every positive integer below \<^verbatim>\<open>next_id\<close> is a key of the
  store or an element of \<^verbatim>\<open>free_ids\<close>; so when \<^verbatim>\<open>free_ids\<close> is empty,
  \<^verbatim>\<open>_get_next_record_id\<close> returns the smallest positive integer that is not a key.
\<close>

theorem ids_below_next_id_accounted:
  assumes "\<forall>op \<in> set ops. well_formed op"
  shows "(\<forall>j. 0 < j \<and> j < next_id (run ops) \<longrightarrow> j \<in> keys (run ops) \<or> j |\<in>| free_ids (run ops))
     \<and> (free_ids (run ops) = {||} \<longrightarrow>
          0 < fst (get_next_record_id pop (run ops))
          \<and> fst (get_next_record_id pop (run ops)) \<notin> keys (run ops)
          \<and> (\<forall>j. 0 < j \<and> j < fst (get_next_record_id pop (run ops)) \<longrightarrow> j \<in> keys (run ops)))"
proof -
  have inv: "book_invariant (run ops)"
    using assms by (rule book_invariant_run)
  then have "\<forall>j. 0 < j \<and> j < next_id (run ops) \<longrightarrow> j \<in> keys (run ops) \<or> j |\<in>| free_ids (run ops)"
    by (simp add: book_invariant_def)
  with least_unused_when_pool_empty [OF inv] show ?thesis by blast
qed

theorem ids_below_next_id_accounted_witness:
  "well_formed (Add jan pop_smallest)
   \<and> free_ids jan_book = {||}
   \<and> fst (get_next_record_id pop_largest jan_book) = 2
   \<and> 2 \<notin> keys jan_book \<and> 1 \<in> keys jan_book"
proof -
  have wf: "\<forall>op \<in> set [Add jan pop_smallest]. well_formed op"
    by (simp add: pop_ok_pop_smallest)
  have e: "free_ids jan_book = {||}" "keys jan_book = {1}"
    by code_simp+
  have c: "0 < fst (get_next_record_id pop_largest jan_book)"
     "fst (get_next_record_id pop_largest jan_book) \<notin> keys jan_book"
     "\<And>j. 0 < j \<Longrightarrow> j < fst (get_next_record_id pop_largest jan_book) \<Longrightarrow> j \<in> keys jan_book"
    using ids_below_next_id_accounted [OF wf, of pop_largest] e(1) by (simp_all add: jan_book_def)
  have "fst (get_next_record_id pop_largest jan_book) = 2"
  proof (rule ccontr)
    assume n: "fst (get_next_record_id pop_largest jan_book) \<noteq> 2"
    from c(1,2) e(2) have "1 < fst (get_next_record_id pop_largest jan_book)" by simp
    with n have "2 < fst (get_next_record_id pop_largest jan_book)" by simp
    with c(3) [of 2] e(2) show False by simp
  qed
  with wf e show ?thesis by simp
qed

end
